theory Spec2Isabelle
  imports Complex_Main "HOL-Library.Char_ord" "HOL-Library.List_Lexorder"
begin

section \<open>sockx: the data model of sockx.go\<close>

text \<open>
  Go pointers (\<^verbatim>\<open>*Client\<close>, \<^verbatim>\<open>*Room\<close>, \<^verbatim>\<open>*Namespace\<close>) are addresses into an
  explicit store, one table per struct type; \<^verbatim>\<open>&T{...}\<close> writes the new object at the
  table's next free address and advances it. A Go \<^verbatim>\<open>map[K]bool\<close> that only ever stores
  \<^verbatim>\<open>true\<close> is a set of keys; the other maps are partial functions. The mutexes are
  left out: every method body is one transition of the sequential model. The payload
  type \<^verbatim>\<open>interface{}\<close> is the type parameter \<open>'d\<close> (the core only forwards it), the Go
  function type \<^verbatim>\<open>EventHandler\<close> is the type parameter \<open>'h\<close>.
\<close>

type_synonym client_ptr = nat
type_synonym room_ptr = nat
type_synonym ns_ptr = nat

text \<open>\<^verbatim>\<open>type Message struct { Event; Data; Namespace; Room }\<close>; the zero value
  \<open>''''\<close> of \<open>Namespace\<close> and \<open>Room\<close> is what \<^verbatim>\<open>omitempty\<close> leaves out on the wire.\<close>

record 'd Message =
  Event :: string
  Data :: 'd
  Namespace :: string
  Room :: string

text \<open>A buffered channel \<^verbatim>\<open>chan Message\<close>: its capacity and the messages it holds,
  oldest first.\<close>

record 'd chan =
  cap :: nat
  buf :: "'d Message list"

text \<open>\<^verbatim>\<open>type Client struct { ID; conn; server; namespace; rooms; send; mu }\<close>. Of the
  connection only whether it is still open is kept.\<close>

record 'd Client =
  client_ID :: string
  client_conn :: bool
  client_namespace :: ns_ptr
  client_rooms :: "string set"
  client_send :: "'d chan"

text \<open>\<^verbatim>\<open>type Room struct { name; clients; namespace; mu }\<close>\<close>

record Room =
  room_name :: string
  room_clients :: "client_ptr set"
  room_namespace :: ns_ptr

text \<open>\<^verbatim>\<open>type Namespace struct { name; clients; rooms; events; server; mu }\<close>\<close>

record 'h Namespace =
  ns_name :: string
  ns_clients :: "client_ptr set"
  ns_rooms :: "string \<rightharpoonup> room_ptr"
  ns_events :: "string \<rightharpoonup> 'h"

text \<open>\<^verbatim>\<open>type Server struct { namespaces; upgrader; mu }\<close>\<close>

record Server =
  namespaces :: "string \<rightharpoonup> ns_ptr"

text \<open>The store: the server and the three object tables with their next free address.\<close>

record ('h, 'd) heap =
  srv :: Server
  nss :: "ns_ptr \<Rightarrow> 'h Namespace"
  next_ns :: nat
  rms :: "room_ptr \<Rightarrow> Room"
  next_room :: nat
  cls :: "client_ptr \<Rightarrow> 'd Client"
  next_client :: nat

text \<open>\<^verbatim>\<open>NewServer\<close>: an empty namespace map; nothing is allocated yet. The unallocated
  cells hold empty objects.\<close>

definition NewServer :: "('h, 'd) heap" where
  "NewServer =
     \<lparr>srv = \<lparr>namespaces = Map.empty\<rparr>,
      nss = (\<lambda>_. \<lparr>ns_name = [], ns_clients = {}, ns_rooms = Map.empty, ns_events = Map.empty\<rparr>),
      next_ns = 0,
      rms = (\<lambda>_. \<lparr>room_name = [], room_clients = {}, room_namespace = 0\<rparr>),
      next_room = 0,
      cls = (\<lambda>_. \<lparr>client_ID = [], client_conn = False, client_namespace = 0,
                    client_rooms = {}, client_send = \<lparr>cap = 0, buf = []\<rparr>\<rparr>),
      next_client = 0\<rparr>"

section \<open>The operations\<close>

subsection \<open>Registry\<close>

text \<open>\<^verbatim>\<open>func (s *Server) Namespace(name string) *Namespace\<close>\<close>

definition Server_Namespace :: "string \<Rightarrow> ('h, 'd) heap \<Rightarrow> ns_ptr \<times> ('h, 'd) heap" where
  "Server_Namespace name h =
     (case namespaces (srv h) name of
        Some ns \<Rightarrow> (ns, h)
      | None \<Rightarrow>
          (let ns = next_ns h in
           (ns, h\<lparr>nss := (nss h)(ns := \<lparr>ns_name = name, ns_clients = {},
                                          ns_rooms = Map.empty, ns_events = Map.empty\<rparr>),
                  next_ns := Suc ns,
                  srv := (srv h)\<lparr>namespaces := (namespaces (srv h))(name \<mapsto> ns)\<rparr>\<rparr>)))"

subsection \<open>Namespace\<close>

text \<open>\<^verbatim>\<open>func (ns *Namespace) On(event string, handler EventHandler)\<close>\<close>

definition Namespace_On :: "ns_ptr \<Rightarrow> string \<Rightarrow> 'h \<Rightarrow> ('h, 'd) heap \<Rightarrow> ('h, 'd) heap" where
  "Namespace_On ns event handler h =
     h\<lparr>nss := (nss h)(ns := (nss h ns)\<lparr>ns_events := (ns_events (nss h ns))(event \<mapsto> handler)\<rparr>)\<rparr>"

text \<open>The non-blocking send
  \<^verbatim>\<open>select { case ch <- msg: default: }\<close>: the message is appended when the buffer has
  room, and the default branch leaves the channel alone otherwise.\<close>

definition try_send :: "'d Message \<Rightarrow> 'd chan \<Rightarrow> 'd chan" where
  "try_send msg ch = (if length (buf ch) < cap ch then ch\<lparr>buf := buf ch @ [msg]\<rparr> else ch)"

text \<open>One iteration of the emit loops: the select on \<^verbatim>\<open>client.send\<close>.\<close>

definition push :: "'d Message \<Rightarrow> client_ptr \<Rightarrow> ('h, 'd) heap \<Rightarrow> ('h, 'd) heap" where
  "push msg c h =
     h\<lparr>cls := (cls h)(c := (cls h c)\<lparr>client_send := try_send msg (client_send (cls h c))\<rparr>)\<rparr>"

text \<open>\<^verbatim>\<open>for client := range m { select ... }\<close> over the keys \<open>ks\<close> in the order the
  range statement yields them.\<close>

fun push_each :: "'d Message \<Rightarrow> client_ptr list \<Rightarrow> ('h, 'd) heap \<Rightarrow> ('h, 'd) heap" where
  "push_each msg [] h = h"
| "push_each msg (c # ks) h = push_each msg ks (push msg c h)"

text \<open>Go leaves the iteration order of a map unspecified. An operation that ranges over
  a map takes the order as an argument \<open>order\<close>: the range over a map with key set \<open>S\<close>
  visits the keys \<open>order S\<close>. What Go guarantees of it is \<open>ranges S (order S)\<close>: every
  key is visited, once.\<close>

definition ranges :: "'a set \<Rightarrow> 'a list \<Rightarrow> bool" where
  "ranges S ks \<longleftrightarrow> set ks = S \<and> distinct ks"

text \<open>\<^verbatim>\<open>func (ns *Namespace) Emit(event string, data interface{})\<close>\<close>

definition Namespace_Emit ::
  "(client_ptr set \<Rightarrow> client_ptr list) \<Rightarrow> ns_ptr \<Rightarrow> string \<Rightarrow> 'd \<Rightarrow>
   ('h, 'd) heap \<Rightarrow> ('h, 'd) heap" where
  "Namespace_Emit order ns event data h =
     (let msg = \<lparr>Event = event, Data = data, Namespace = ns_name (nss h ns), Room = []\<rparr>
      in push_each msg (order (ns_clients (nss h ns))) h)"

text \<open>\<^verbatim>\<open>func (ns *Namespace) Room(name string) *Room\<close>\<close>

definition Namespace_Room ::
  "ns_ptr \<Rightarrow> string \<Rightarrow> ('h, 'd) heap \<Rightarrow> room_ptr \<times> ('h, 'd) heap" where
  "Namespace_Room ns name h =
     (case ns_rooms (nss h ns) name of
        Some room \<Rightarrow> (room, h)
      | None \<Rightarrow>
          (let room = next_room h in
           (room, h\<lparr>rms := (rms h)(room := \<lparr>room_name = name, room_clients = {},
                                              room_namespace = ns\<rparr>),
                    next_room := Suc room,
                    nss := (nss h)(ns := (nss h ns)\<lparr>ns_rooms := (ns_rooms (nss h ns))(name \<mapsto> room)\<rparr>)\<rparr>)))"

text \<open>\<^verbatim>\<open>func (ns *Namespace) addClient(client *Client)\<close>\<close>

definition Namespace_addClient :: "ns_ptr \<Rightarrow> client_ptr \<Rightarrow> ('h, 'd) heap \<Rightarrow> ('h, 'd) heap" where
  "Namespace_addClient ns client h =
     h\<lparr>nss := (nss h)(ns := (nss h ns)\<lparr>ns_clients := insert client (ns_clients (nss h ns))\<rparr>)\<rparr>"

text \<open>\<^verbatim>\<open>func (ns *Namespace) removeClient(client *Client)\<close>\<close>

definition Namespace_removeClient :: "ns_ptr \<Rightarrow> client_ptr \<Rightarrow> ('h, 'd) heap \<Rightarrow> ('h, 'd) heap" where
  "Namespace_removeClient ns client h =
     h\<lparr>nss := (nss h)(ns := (nss h ns)\<lparr>ns_clients := ns_clients (nss h ns) - {client}\<rparr>)\<rparr>"

text \<open>\<^verbatim>\<open>func (ns *Namespace) handleEvent(client *Client, msg Message)\<close>. Running a
  handler is application code: \<open>call handler client data\<close> is the state transformer it
  stands for.\<close>

definition Namespace_handleEvent ::
  "('h \<Rightarrow> client_ptr \<Rightarrow> 'd \<Rightarrow> ('h, 'd) heap \<Rightarrow> ('h, 'd) heap) \<Rightarrow>
   ns_ptr \<Rightarrow> client_ptr \<Rightarrow> 'd Message \<Rightarrow> ('h, 'd) heap \<Rightarrow> ('h, 'd) heap" where
  "Namespace_handleEvent call ns client msg h =
     (case ns_events (nss h ns) (Event msg) of
        Some handler \<Rightarrow> call handler client (Data msg) h
      | None \<Rightarrow> h)"

subsection \<open>Room\<close>

text \<open>\<^verbatim>\<open>func (r *Room) Emit(event string, data interface{})\<close>\<close>

definition Room_Emit ::
  "(client_ptr set \<Rightarrow> client_ptr list) \<Rightarrow> room_ptr \<Rightarrow> string \<Rightarrow> 'd \<Rightarrow>
   ('h, 'd) heap \<Rightarrow> ('h, 'd) heap" where
  "Room_Emit order r event data h =
     (let msg = \<lparr>Event = event, Data = data,
                 Namespace = ns_name (nss h (room_namespace (rms h r))),
                 Room = room_name (rms h r)\<rparr>
      in push_each msg (order (room_clients (rms h r))) h)"

text \<open>\<^verbatim>\<open>func (r *Room) addClient(client *Client)\<close>\<close>

definition Room_addClient :: "room_ptr \<Rightarrow> client_ptr \<Rightarrow> ('h, 'd) heap \<Rightarrow> ('h, 'd) heap" where
  "Room_addClient r client h =
     h\<lparr>rms := (rms h)(r := (rms h r)\<lparr>room_clients := insert client (room_clients (rms h r))\<rparr>)\<rparr>"

text \<open>\<^verbatim>\<open>func (r *Room) removeClient(client *Client)\<close>\<close>

definition Room_removeClient :: "room_ptr \<Rightarrow> client_ptr \<Rightarrow> ('h, 'd) heap \<Rightarrow> ('h, 'd) heap" where
  "Room_removeClient r client h =
     h\<lparr>rms := (rms h)(r := (rms h r)\<lparr>room_clients := room_clients (rms h r) - {client}\<rparr>)\<rparr>"

subsection \<open>Client\<close>

text \<open>\<^verbatim>\<open>func (c *Client) Join(roomName string)\<close>\<close>

definition Client_Join :: "client_ptr \<Rightarrow> string \<Rightarrow> ('h, 'd) heap \<Rightarrow> ('h, 'd) heap" where
  "Client_Join c roomName h =
     (let h1 = h\<lparr>cls := (cls h)(c := (cls h c)\<lparr>client_rooms := insert roomName (client_rooms (cls h c))\<rparr>)\<rparr>;
          (room, h2) = Namespace_Room (client_namespace (cls h1 c)) roomName h1
      in Room_addClient room c h2)"

text \<open>\<^verbatim>\<open>func (c *Client) Leave(roomName string)\<close>\<close>

definition Client_Leave :: "client_ptr \<Rightarrow> string \<Rightarrow> ('h, 'd) heap \<Rightarrow> ('h, 'd) heap" where
  "Client_Leave c roomName h =
     (let h1 = h\<lparr>cls := (cls h)(c := (cls h c)\<lparr>client_rooms := client_rooms (cls h c) - {roomName}\<rparr>)\<rparr>
      in case ns_rooms (nss h1 (client_namespace (cls h1 c))) roomName of
           Some room \<Rightarrow> Room_removeClient room c h1
         | None \<Rightarrow> h1)"

text \<open>\<^verbatim>\<open>func (c *Client) Emit(event string, data interface{})\<close>\<close>

definition Client_Emit :: "client_ptr \<Rightarrow> string \<Rightarrow> 'd \<Rightarrow> ('h, 'd) heap \<Rightarrow> ('h, 'd) heap" where
  "Client_Emit c event data h =
     (let msg = \<lparr>Event = event, Data = data,
                 Namespace = ns_name (nss h (client_namespace (cls h c))), Room = []\<rparr>
      in push msg c h)"

text \<open>The loop \<^verbatim>\<open>for _, room := range rooms { c.Leave(room) }\<close> of the function that
  \<^verbatim>\<open>readPump\<close> defers.\<close>

fun leave_each :: "client_ptr \<Rightarrow> string list \<Rightarrow> ('h, 'd) heap \<Rightarrow> ('h, 'd) heap" where
  "leave_each c [] h = h"
| "leave_each c (room # rooms) h = leave_each c rooms (Client_Leave c room h)"

text \<open>The function deferred by \<^verbatim>\<open>readPump\<close>: \<^verbatim>\<open>removeClient\<close>, the snapshot \<open>rooms\<close>
  of the keys of \<^verbatim>\<open>c.rooms\<close> (in the order the range yields them), a \<^verbatim>\<open>Leave\<close> for
  each, and \<^verbatim>\<open>c.conn.Close()\<close>.\<close>

definition readPump_deferred ::
  "(string set \<Rightarrow> string list) \<Rightarrow> client_ptr \<Rightarrow> ('h, 'd) heap \<Rightarrow> ('h, 'd) heap" where
  "readPump_deferred order c h =
     (let h1 = Namespace_removeClient (client_namespace (cls h c)) c h;
          rooms = order (client_rooms (cls h1 c));
          h2 = leave_each c rooms h1
      in h2\<lparr>cls := (cls h2)(c := (cls h2 c)\<lparr>client_conn := False\<rparr>)\<rparr>)"

text \<open>What \<^verbatim>\<open>c.conn.ReadJSON(&msg)\<close> returns: a decoded message, or an error (the
  transport closed, or the frame did not decode).\<close>

datatype 'd frame = Decoded "'d Message" | ReadError

text \<open>The loop of \<^verbatim>\<open>readPump\<close> over the frames the connection delivers: it dispatches
  each decoded message and breaks at the first error. \<open>Some\<close> is the state at the break;
  \<open>None\<close> means the frames ran out with no error, where the pump is still blocked in
  \<^verbatim>\<open>ReadJSON\<close>.\<close>

fun read_loop ::
  "('h \<Rightarrow> client_ptr \<Rightarrow> 'd \<Rightarrow> ('h, 'd) heap \<Rightarrow> ('h, 'd) heap) \<Rightarrow>
   client_ptr \<Rightarrow> 'd frame list \<Rightarrow> ('h, 'd) heap \<Rightarrow> ('h, 'd) heap option" where
  "read_loop call c [] h = None"
| "read_loop call c (ReadError # fs) h = Some h"
| "read_loop call c (Decoded msg # fs) h =
     read_loop call c fs (Namespace_handleEvent call (client_namespace (cls h c)) c msg h)"

text \<open>\<^verbatim>\<open>func (c *Client) readPump()\<close>: the loop, then the deferred function.\<close>

definition readPump ::
  "('h \<Rightarrow> client_ptr \<Rightarrow> 'd \<Rightarrow> ('h, 'd) heap \<Rightarrow> ('h, 'd) heap) \<Rightarrow>
   client_ptr \<Rightarrow> 'd frame list \<Rightarrow> (string set \<Rightarrow> string list) \<Rightarrow>
   ('h, 'd) heap \<Rightarrow> ('h, 'd) heap option" where
  "readPump call c fs order h =
     (case read_loop call c fs h of
        None \<Rightarrow> None
      | Some h1 \<Rightarrow> Some (readPump_deferred order c h1))"

text \<open>One iteration of the loop of \<^verbatim>\<open>writePump\<close>,
  \<^verbatim>\<open>for msg := range c.send { err := c.conn.WriteJSON(msg); ... }\<close>: the receive takes
  the oldest message (on an empty channel the pump waits and nothing changes);
  \<open>written\<close> says whether the write succeeded, and a failed write breaks the loop, so
  that the deferred \<^verbatim>\<open>c.conn.Close()\<close> runs.\<close>

definition writePump_iteration ::
  "client_ptr \<Rightarrow> bool \<Rightarrow> ('h, 'd) heap \<Rightarrow> ('h, 'd) heap" where
  "writePump_iteration c written h =
     (case buf (client_send (cls h c)) of
        [] \<Rightarrow> h
      | msg # rest \<Rightarrow>
          h\<lparr>cls := (cls h)(c := (cls h c)
                \<lparr>client_conn := client_conn (cls h c) \<and> written,
                 client_send := (client_send (cls h c))\<lparr>buf := rest\<rparr>\<rparr>)\<rparr>)"

subsection \<open>Accepting a connection\<close>

text \<open>\<^verbatim>\<open>func randomString(n int) string\<close>: byte \<open>i\<close> of the result is
  \<^verbatim>\<open>chars[i%len(chars)]\<close>.\<close>

definition chars :: string where
  "chars = ''abcdefghijklmnopqrstuvwxyzABCDEFGHIJKLMNOPQRSTUVWXYZ0123456789''"

definition randomString :: "nat \<Rightarrow> string" where
  "randomString n = map (\<lambda>i. chars ! (i mod length chars)) [0..<n]"

text \<open>\<^verbatim>\<open>func generateID() string\<close>\<close>

definition generateID :: string where
  "generateID = randomString 16"

text \<open>The handler returned by \<^verbatim>\<open>ServeWebSocket(namespaceName)\<close>, run for one request.
  \<open>upgraded\<close> says whether \<^verbatim>\<open>s.upgrader.Upgrade\<close> succeeded; when it did not, the handler
  returns at once. The new client is at the address \<open>next_client h\<close>. Its two pumps are
  started as goroutines and are not part of this transition.\<close>

definition ServeWebSocket :: "string \<Rightarrow> bool \<Rightarrow> ('h, 'd) heap \<Rightarrow> ('h, 'd) heap" where
  "ServeWebSocket namespaceName upgraded h =
     (if \<not> upgraded then h
      else
        (let (ns, h1) = Server_Namespace namespaceName h;
             client = next_client h1;
             h2 = h1\<lparr>cls := (cls h1)(client :=
                       \<lparr>client_ID = generateID, client_conn = True, client_namespace = ns,
                        client_rooms = {}, client_send = \<lparr>cap = 256, buf = []\<rparr>\<rparr>),
                     next_client := Suc client\<rparr>
         in Namespace_addClient ns client h2))"

section \<open>Notions used by the properties\<close>

text \<open>A channel is full when its buffer holds as many messages as its capacity.\<close>

definition full :: "'d chan \<Rightarrow> bool" where
  "full ch \<longleftrightarrow> cap ch \<le> length (buf ch)"

text \<open>The client after exactly one more message has been put at the end of its
  outbound queue; nothing else about it differs.\<close>

definition receives :: "'d Message \<Rightarrow> 'd Client \<Rightarrow> 'd Client" where
  "receives msg cl = cl\<lparr>client_send := (client_send cl)\<lparr>buf := buf (client_send cl) @ [msg]\<rparr>\<rparr>"

text \<open>A sequence of \<^verbatim>\<open>ns.On(event, handler)\<close> calls, first call first, and the handler
  the last of these calls registered for an event.\<close>

fun on_each :: "ns_ptr \<Rightarrow> (string \<times> 'h) list \<Rightarrow> ('h, 'd) heap \<Rightarrow> ('h, 'd) heap" where
  "on_each ns [] h = h"
| "on_each ns ((event, handler) # regs) h = on_each ns regs (Namespace_On ns event handler h)"

definition last_registered :: "(string \<times> 'h) list \<Rightarrow> string \<Rightarrow> 'h option" where
  "last_registered regs event = map_of (rev regs) event"

text \<open>Client \<open>c\<close> has joined room \<open>r\<close>: the name is in its mirror, or the client
  is a member of the room registered under that name in its namespace.\<close>

definition joined :: "('h, 'd) heap \<Rightarrow> client_ptr \<Rightarrow> string \<Rightarrow> bool" where
  "joined h c r \<longleftrightarrow>
     r \<in> client_rooms (cls h c) \<or>
     (case ns_rooms (nss h (client_namespace (cls h c))) r of
        Some room \<Rightarrow> c \<in> room_clients (rms h room)
      | None \<Rightarrow> False)"

text \<open>The room-subset property: every room's client set is a subset of the client set
  of the namespace the room belongs to.\<close>

definition subset_ok :: "('h, 'd) heap \<Rightarrow> bool" where
  "subset_ok h \<longleftrightarrow>
     (\<forall>p. room_clients (rms h p) \<subseteq> ns_clients (nss h (room_namespace (rms h p))))"

text \<open>Consistency of the store, as \<^verbatim>\<open>Join\<close> and \<^verbatim>\<open>Leave\<close> keep it: every membership
  in a room is recorded in the member's mirror, and the room is the one registered
  under its name in the member's namespace (\<open>mirror_ok\<close>); a registered room is
  allocated and carries the name and the namespace it is registered under
  (\<open>registry_ok\<close>); members, clients' namespaces and the server's namespaces are
  allocated objects (\<open>alloc_ok\<close>).\<close>

definition mirror_ok :: "('h, 'd) heap \<Rightarrow> bool" where
  "mirror_ok h \<longleftrightarrow>
     (\<forall>p c. c \<in> room_clients (rms h p) \<longrightarrow>
        ns_rooms (nss h (client_namespace (cls h c))) (room_name (rms h p)) = Some p \<and>
        room_name (rms h p) \<in> client_rooms (cls h c))"

definition registry_ok :: "('h, 'd) heap \<Rightarrow> bool" where
  "registry_ok h \<longleftrightarrow>
     (\<forall>n r p. ns_rooms (nss h n) r = Some p \<longrightarrow>
        p < next_room h \<and> room_namespace (rms h p) = n \<and> room_name (rms h p) = r)"

definition alloc_ok :: "('h, 'd) heap \<Rightarrow> bool" where
  "alloc_ok h \<longleftrightarrow>
     (\<forall>p c. c \<in> room_clients (rms h p) \<longrightarrow> c < next_client h) \<and>
     (\<forall>c. c < next_client h \<longrightarrow> client_namespace (cls h c) < next_ns h) \<and>
     (\<forall>name n. namespaces (srv h) name = Some n \<longrightarrow> n < next_ns h)"

definition consistent :: "('h, 'd) heap \<Rightarrow> bool" where
  "consistent h \<longleftrightarrow> mirror_ok h \<and> registry_ok h \<and> alloc_ok h"

text \<open>The states a server reaches from \<^verbatim>\<open>NewServer()\<close>. Pointers handed to an
  operation are addresses of allocated objects, and a range runs over the keys of the
  map it ranges over. A client joins while it is registered in its namespace, and a
  client is taken out of its namespace by the function \<^verbatim>\<open>readPump\<close> defers, as a whole.\<close>

inductive reachable :: "('h, 'd) heap \<Rightarrow> bool" where
  new_server: "reachable NewServer"
| namespace: "reachable h \<Longrightarrow> reachable (snd (Server_Namespace name h))"
| on: "reachable h \<Longrightarrow> ns < next_ns h \<Longrightarrow> reachable (Namespace_On ns event handler h)"
| room: "reachable h \<Longrightarrow> ns < next_ns h \<Longrightarrow> reachable (snd (Namespace_Room ns name h))"
| namespace_emit:
    "reachable h \<Longrightarrow> ns < next_ns h \<Longrightarrow>
     ranges (ns_clients (nss h ns)) (order (ns_clients (nss h ns))) \<Longrightarrow>
     reachable (Namespace_Emit order ns event data h)"
| room_emit:
    "reachable h \<Longrightarrow> r < next_room h \<Longrightarrow>
     ranges (room_clients (rms h r)) (order (room_clients (rms h r))) \<Longrightarrow>
     reachable (Room_Emit order r event data h)"
| client_emit: "reachable h \<Longrightarrow> c < next_client h \<Longrightarrow> reachable (Client_Emit c event data h)"
| wrote: "reachable h \<Longrightarrow> c < next_client h \<Longrightarrow> reachable (writePump_iteration c written h)"
| accept: "reachable h \<Longrightarrow> reachable (ServeWebSocket name upgraded h)"
| add_client:
    "reachable h \<Longrightarrow> ns < next_ns h \<Longrightarrow> c < next_client h \<Longrightarrow>
     reachable (Namespace_addClient ns c h)"
| join:
    "reachable h \<Longrightarrow> c < next_client h \<Longrightarrow>
     c \<in> ns_clients (nss h (client_namespace (cls h c))) \<Longrightarrow>
     reachable (Client_Join c roomName h)"
| leave: "reachable h \<Longrightarrow> c < next_client h \<Longrightarrow> reachable (Client_Leave c roomName h)"
| teardown:
    "reachable h \<Longrightarrow> c < next_client h \<Longrightarrow>
     ranges (client_rooms (cls h c)) (rooms_order (client_rooms (cls h c))) \<Longrightarrow>
     reachable (readPump_deferred rooms_order c h)"

subsection \<open>Two concrete states\<close>

text \<open>Two clients connect to \<^verbatim>\<open>/\<close> and the first joins room \<^verbatim>\<open>r1\<close>: the clients are
  at the addresses 0 and 1, the namespace and the room at 0. Handlers are named by
  strings here and payloads are numbers. In \<open>full_queue\<close> the room has then emitted
  256 times while nothing was written out, which fills the first client's queue. The
  ranges of these examples visit the keys in ascending order (\<open>sorted_list_of_set\<close>).\<close>

definition two_clients :: "(string, nat) heap" where
  "two_clients =
     Client_Join 0 ''r1'' (ServeWebSocket ''/'' True (ServeWebSocket ''/'' True NewServer))"

definition full_queue :: "(string, nat) heap" where
  "full_queue = (Room_Emit sorted_list_of_set 0 ''x'' 42 ^^ 256) two_clients"

text \<open>A handler named \<open>g\<close> that emits the event \<open>g\<close> with the payload it received
  back to the sender.\<close>

definition echo :: "string \<Rightarrow> client_ptr \<Rightarrow> nat \<Rightarrow> (string, nat) heap \<Rightarrow> (string, nat) heap" where
  "echo g c d h = Client_Emit c g d h"

section \<open>The wire encoding of a message\<close>

text \<open>\<^verbatim>\<open>writePump\<close> hands each message to \<^verbatim>\<open>c.conn.WriteJSON\<close> and \<^verbatim>\<open>readPump\<close> fills one
  with \<^verbatim>\<open>c.conn.ReadJSON\<close>. Both are the JSON codec of the Go library, which is not part
  of sockx.go; the source fixes the member names and \<^verbatim>\<open>omitempty\<close> through the tags of
  \<^verbatim>\<open>Message\<close>. The codec is written here on JSON values (the text of a JSON value and
  the value determine each other), and strings are text.\<close>










section \<open>Client identifiers\<close>

lemma generateID_value: "generateID = ''abcdefghijklmnop''"
  by (simp add: generateID_def randomString_def chars_def upt_rec)

text \<open>Claim C1 asks for a fresh, unique id for every accepted connection. The code
  gives every client the same id: \<^verbatim>\<open>randomString\<close> indexes \<^verbatim>\<open>chars\<close> with the loop
  counter, so \<^verbatim>\<open>generateID()\<close> is the constant \<^verbatim>\<open>abcdefghijklmnop\<close>. Two connections
  accepted on a new server are two distinct clients with equal \<^verbatim>\<open>ID\<close> fields.\<close>

theorem C1_client_ids_collide:
  "next_client (ServeWebSocket ''/'' True (NewServer :: (string, nat) heap)) = 1 \<and>
   next_client (ServeWebSocket ''/'' True
     (ServeWebSocket ''/'' True (NewServer :: (string, nat) heap))) = 2 \<and>
   client_ID (cls (ServeWebSocket ''/'' True
     (ServeWebSocket ''/'' True (NewServer :: (string, nat) heap))) 0) = ''abcdefghijklmnop'' \<and>
   client_ID (cls (ServeWebSocket ''/'' True
     (ServeWebSocket ''/'' True (NewServer :: (string, nat) heap))) 1) = ''abcdefghijklmnop''"
  by (simp add: ServeWebSocket_def Server_Namespace_def NewServer_def Namespace_addClient_def
      Let_def generateID_value)

section \<open>Emit: scoping, tagging and drop-on-full\<close>


lemma try_send_full: "full ch \<Longrightarrow> try_send msg ch = ch"
  by (simp add: try_send_def full_def)

lemma try_send_free: "\<not> full ch \<Longrightarrow> try_send msg ch = ch\<lparr>buf := buf ch @ [msg]\<rparr>"
  by (simp add: try_send_def full_def)

lemma push_frame:
  "srv (push msg c h) = srv h" "nss (push msg c h) = nss h" "next_ns (push msg c h) = next_ns h"
  "rms (push msg c h) = rms h" "next_room (push msg c h) = next_room h"
  "next_client (push msg c h) = next_client h"
  by (simp_all add: push_def)

lemma push_each_frame:
  "srv (push_each msg ks h) = srv h \<and> nss (push_each msg ks h) = nss h \<and>
   next_ns (push_each msg ks h) = next_ns h \<and> rms (push_each msg ks h) = rms h \<and>
   next_room (push_each msg ks h) = next_room h \<and>
   next_client (push_each msg ks h) = next_client h"
  by (induction ks arbitrary: h) (simp_all add: push_frame)

lemma push_cls_other: "c' \<noteq> c \<Longrightarrow> cls (push msg c h) c' = cls h c'"
  by (simp add: push_def)

lemma push_cls_same:
  "cls (push msg c h) c = (cls h c)\<lparr>client_send := try_send msg (client_send (cls h c))\<rparr>"
  by (simp add: push_def)

lemma push_each_notin: "c \<notin> set ks \<Longrightarrow> cls (push_each msg ks h) c = cls h c"
  by (induction ks arbitrary: h) (auto simp: push_cls_other)

lemma push_each_in:
  "distinct ks \<Longrightarrow> c \<in> set ks \<Longrightarrow>
   cls (push_each msg ks h) c = (cls h c)\<lparr>client_send := try_send msg (client_send (cls h c))\<rparr>"
proof (induction ks arbitrary: h)
  case Nil
  then show ?case by simp
next
  case (Cons k ks)
  show ?case
  proof (cases "c = k")
    case True
    with Cons.prems have "c \<notin> set ks" by simp
    then show ?thesis using True by (simp add: push_each_notin push_cls_same)
  next
    case False
    with Cons.prems have "distinct ks" "c \<in> set ks" by simp_all
    then show ?thesis using False Cons.IH by (simp add: push_cls_other)
  qed
qed

lemma push_full: "full (client_send (cls h c)) \<Longrightarrow> push msg c h = h"
  by (simp add: push_def try_send_full)

lemma push_keeps_full:
  "full (client_send (cls h c)) \<Longrightarrow> full (client_send (cls (push msg k h) c))"
  by (cases "c = k") (simp_all add: push_cls_same push_cls_other try_send_full)

lemma push_each_full:
  "full (client_send (cls h c)) \<Longrightarrow> cls (push_each msg ks h) c = cls h c"
proof (induction ks arbitrary: h)
  case Nil
  then show ?case by simp
next
  case (Cons k ks)
  have "cls (push msg k h) c = cls h c"
    using Cons.prems by (cases "c = k") (simp_all add: push_cls_same push_cls_other try_send_full)
  then show ?case using Cons.IH [of "push msg k h"] Cons.prems by (simp add: push_keeps_full)
qed


lemma push_each_cls:
  "distinct ks \<Longrightarrow>
   cls (push_each msg ks h) c =
     (if c \<in> set ks \<and> \<not> full (client_send (cls h c)) then receives msg (cls h c) else cls h c)"
proof (cases "c \<in> set ks")
  case False
  then show ?thesis by (simp add: push_each_notin)
next
  case True
  assume d: "distinct ks"
  show ?thesis
  proof (cases "full (client_send (cls h c))")
    case True
    then show ?thesis by (simp add: push_each_full)
  next
    case False
    then show ?thesis using True d by (simp add: push_each_in try_send_free receives_def)
  qed
qed

lemma Room_Emit_single:
  "order (room_clients (rms h r)) = [c] \<Longrightarrow>
   Room_Emit order r e d h =
     push \<lparr>Event = e, Data = d, Namespace = ns_name (nss h (room_namespace (rms h r))),
            Room = room_name (rms h r)\<rparr> c h"
  by (simp add: Room_Emit_def)

lemma fill_queue:
  "order (room_clients (rms h r)) = [c] \<Longrightarrow>
   length (buf (client_send (cls h c))) \<le> cap (client_send (cls h c)) \<Longrightarrow>
   (let hn = (Room_Emit order r e d ^^ n) h in
      rms hn = rms h \<and> nss hn = nss h \<and>
      cap (client_send (cls hn c)) = cap (client_send (cls h c)) \<and>
      length (buf (client_send (cls hn c))) =
        min (cap (client_send (cls h c))) (length (buf (client_send (cls h c))) + n))"
proof (induction n)
  case 0
  then show ?case by simp
next
  case (Suc n)
  then show ?case
    by (auto simp add: Let_def Room_Emit_single push_def try_send_def)
qed

subsection \<open>The two concrete states\<close>

lemma two_clients_nss:
  "nss two_clients 0 =
     \<lparr>ns_name = ''/'', ns_clients = {0, 1}, ns_rooms = [''r1'' \<mapsto> 0], ns_events = Map.empty\<rparr>"
  by (auto simp add: two_clients_def Client_Join_def Namespace_Room_def Room_addClient_def
      ServeWebSocket_def Server_Namespace_def Namespace_addClient_def NewServer_def Let_def)

lemma two_clients_rms:
  "rms two_clients 0 = \<lparr>room_name = ''r1'', room_clients = {0}, room_namespace = 0\<rparr>"
  by (simp add: two_clients_def Client_Join_def Namespace_Room_def Room_addClient_def
      ServeWebSocket_def Server_Namespace_def Namespace_addClient_def NewServer_def Let_def)

lemma two_clients_cls:
  "cls two_clients 0 =
     \<lparr>client_ID = ''abcdefghijklmnop'', client_conn = True, client_namespace = 0,
      client_rooms = {''r1''}, client_send = \<lparr>cap = 256, buf = []\<rparr>\<rparr>"
  "cls two_clients (Suc 0) =
     \<lparr>client_ID = ''abcdefghijklmnop'', client_conn = True, client_namespace = 0,
      client_rooms = {}, client_send = \<lparr>cap = 256, buf = []\<rparr>\<rparr>"
  by (simp_all add: two_clients_def Client_Join_def Namespace_Room_def Room_addClient_def
      ServeWebSocket_def Server_Namespace_def Namespace_addClient_def NewServer_def Let_def
      generateID_value)

lemma two_clients_counters:
  "next_ns two_clients = 1" "next_room two_clients = 1" "next_client two_clients = 2"
  "namespaces (srv two_clients) = [''/'' \<mapsto> 0]"
  by (simp_all add: two_clients_def Client_Join_def Namespace_Room_def Room_addClient_def
      ServeWebSocket_def Server_Namespace_def Namespace_addClient_def NewServer_def Let_def)

lemmas two_clients_state = two_clients_nss two_clients_rms two_clients_cls two_clients_counters

lemma full_queue_state:
  "rms full_queue = rms two_clients" "nss full_queue = nss two_clients"
  "cap (client_send (cls full_queue 0)) = 256"
  "length (buf (client_send (cls full_queue 0))) = 256"
  using fill_queue [where h = two_clients and c = 0 and r = 0 and e = "''x''" and d = 42
      and n = 256 and order = sorted_list_of_set]
  by (simp_all add: Let_def full_queue_def two_clients_cls two_clients_rms)

lemma full_queue_full: "full (client_send (cls full_queue 0))"
  by (simp add: full_def full_queue_state)

text \<open>Claim C3 (drop-on-full): when the queue of client \<open>c\<close> is full, \<^verbatim>\<open>Client.Emit\<close>
  changes nothing at all, and \<^verbatim>\<open>Namespace.Emit\<close> and \<^verbatim>\<open>Room.Emit\<close>, whatever their
  ranges visit, leave \<open>c\<close> as it was; when the queue has room, each of the three
  appends its message to it (for the two broadcasts: when \<open>c\<close> is in the client set
  the range runs over). The three operations are total functions that return
  the next state and nothing else: there is no error value, and the select with a
  default branch never waits.\<close>

theorem C3_drop_on_full:
  fixes h :: "('h, 'd) heap"
  shows
  "(full (client_send (cls h c)) \<longrightarrow>
      Client_Emit c event data h = h \<and>
      cls (Namespace_Emit order ns event data h) c = cls h c \<and>
      cls (Room_Emit order r event data h) c = cls h c) \<and>
   (\<not> full (client_send (cls h c)) \<longrightarrow>
      buf (client_send (cls (Client_Emit c event data h) c)) =
        buf (client_send (cls h c)) @
          [\<lparr>Event = event, Data = data,
            Namespace = ns_name (nss h (client_namespace (cls h c))), Room = []\<rparr>] \<and>
      (ranges (ns_clients (nss h ns)) (order (ns_clients (nss h ns))) \<and>
       c \<in> ns_clients (nss h ns) \<longrightarrow>
         buf (client_send (cls (Namespace_Emit order ns event data h) c)) =
           buf (client_send (cls h c)) @
             [\<lparr>Event = event, Data = data, Namespace = ns_name (nss h ns), Room = []\<rparr>]) \<and>
      (ranges (room_clients (rms h r)) (order (room_clients (rms h r))) \<and>
       c \<in> room_clients (rms h r) \<longrightarrow>
         buf (client_send (cls (Room_Emit order r event data h) c)) =
           buf (client_send (cls h c)) @
             [\<lparr>Event = event, Data = data,
               Namespace = ns_name (nss h (room_namespace (rms h r))),
               Room = room_name (rms h r)\<rparr>]))"
  by (simp add: Client_Emit_def Namespace_Emit_def Room_Emit_def Let_def push_full
      push_each_full push_cls_same push_each_in try_send_free ranges_def)

theorem C3_drop_on_full_witness:
  "full (client_send (cls full_queue 0)) \<and>
   Client_Emit 0 ''y'' 7 full_queue = full_queue \<and>
   cls (Namespace_Emit sorted_list_of_set 0 ''y'' 7 full_queue) 0 = cls full_queue 0 \<and>
   cls (Room_Emit sorted_list_of_set 0 ''y'' 7 full_queue) 0 = cls full_queue 0 \<and>
   \<not> full (client_send (cls two_clients 0)) \<and>
   ranges (ns_clients (nss two_clients 0)) (sorted_list_of_set (ns_clients (nss two_clients 0))) \<and>
   ranges (room_clients (rms two_clients 0))
     (sorted_list_of_set (room_clients (rms two_clients 0))) \<and>
   buf (client_send (cls (Client_Emit 0 ''y'' 7 two_clients) 0)) =
     [\<lparr>Event = ''y'', Data = 7, Namespace = ''/'', Room = []\<rparr>] \<and>
   buf (client_send (cls (Namespace_Emit sorted_list_of_set 0 ''y'' 7 two_clients) 0)) =
     [\<lparr>Event = ''y'', Data = 7, Namespace = ''/'', Room = []\<rparr>] \<and>
   buf (client_send (cls (Room_Emit sorted_list_of_set 0 ''y'' 7 two_clients) 0)) =
     [\<lparr>Event = ''y'', Data = 7, Namespace = ''/'', Room = ''r1''\<rparr>]"
proof -
  have f: "full (client_send (cls full_queue 0))" by (rule full_queue_full)
  have n: "\<not> full (client_send (cls two_clients 0))"
    by (simp add: full_def two_clients_state)
  have r: "ranges (ns_clients (nss two_clients 0))
             (sorted_list_of_set (ns_clients (nss two_clients 0)))"
    "ranges (room_clients (rms two_clients 0))
       (sorted_list_of_set (room_clients (rms two_clients 0)))"
    by (simp_all add: ranges_def two_clients_state)
  show ?thesis
    using f n r
      C3_drop_on_full [of full_queue 0 "''y''" 7 sorted_list_of_set 0 0]
      C3_drop_on_full [of two_clients 0 "''y''" 7 sorted_list_of_set 0 0]
    by (simp add: two_clients_state)
qed

text \<open>Claim C2 (emit scoping and tagging), as the code has it. Let the range of
  \<^verbatim>\<open>Room.Emit\<close> visit the members of room \<open>r\<close> and the range of \<^verbatim>\<open>Namespace.Emit\<close> the
  clients of namespace \<open>ns\<close>. Then \<^verbatim>\<open>Room.Emit\<close> appends exactly one message, tagged
  with the event, the data, the owning namespace's name and the room's name, to the
  queue of every member whose queue is not full, and changes no other client;
  \<^verbatim>\<open>Namespace.Emit\<close> does the same with an empty room tag for every client of the
  namespace whose queue is not full, whatever rooms it is in; \<^verbatim>\<open>Client.Emit\<close> touches
  that one client only. A client whose queue is full is skipped.\<close>

theorem C2_emit_scoping:
  fixes h :: "('h, 'd) heap"
  assumes "ranges (room_clients (rms h r)) (order (room_clients (rms h r)))"
    and "ranges (ns_clients (nss h ns)) (order (ns_clients (nss h ns)))"
  shows
  "(\<forall>c'. cls (Room_Emit order r event data h) c' =
      (if c' \<in> room_clients (rms h r) \<and> \<not> full (client_send (cls h c'))
       then receives \<lparr>Event = event, Data = data,
                      Namespace = ns_name (nss h (room_namespace (rms h r))),
                      Room = room_name (rms h r)\<rparr> (cls h c')
       else cls h c')) \<and>
   (\<forall>c'. cls (Namespace_Emit order ns event data h) c' =
      (if c' \<in> ns_clients (nss h ns) \<and> \<not> full (client_send (cls h c'))
       then receives \<lparr>Event = event, Data = data, Namespace = ns_name (nss h ns), Room = []\<rparr>
              (cls h c')
       else cls h c')) \<and>
   (\<forall>c'. cls (Client_Emit c event data h) c' =
      (if c' = c \<and> \<not> full (client_send (cls h c'))
       then receives \<lparr>Event = event, Data = data,
                      Namespace = ns_name (nss h (client_namespace (cls h c))), Room = []\<rparr>
              (cls h c')
       else cls h c'))"
proof (intro conjI allI)
  fix c'
  show "cls (Room_Emit order r event data h) c' =
      (if c' \<in> room_clients (rms h r) \<and> \<not> full (client_send (cls h c'))
       then receives \<lparr>Event = event, Data = data,
                      Namespace = ns_name (nss h (room_namespace (rms h r))),
                      Room = room_name (rms h r)\<rparr> (cls h c')
       else cls h c')"
    using assms(1) by (simp add: Room_Emit_def Let_def ranges_def push_each_cls)
  show "cls (Namespace_Emit order ns event data h) c' =
      (if c' \<in> ns_clients (nss h ns) \<and> \<not> full (client_send (cls h c'))
       then receives \<lparr>Event = event, Data = data, Namespace = ns_name (nss h ns), Room = []\<rparr>
              (cls h c')
       else cls h c')"
    using assms(2) by (simp add: Namespace_Emit_def Let_def ranges_def push_each_cls)
  show "cls (Client_Emit c event data h) c' =
      (if c' = c \<and> \<not> full (client_send (cls h c'))
       then receives \<lparr>Event = event, Data = data,
                      Namespace = ns_name (nss h (client_namespace (cls h c))), Room = []\<rparr>
              (cls h c')
       else cls h c')"
    using push_each_cls [of "[c]" _ h c'] by (simp add: Client_Emit_def Let_def)
qed

theorem C2_emit_scoping_witness:
  "ranges (room_clients (rms two_clients 0))
     (sorted_list_of_set (room_clients (rms two_clients 0))) \<and>
   ranges (ns_clients (nss two_clients 0)) (sorted_list_of_set (ns_clients (nss two_clients 0))) \<and>
   buf (client_send (cls (Room_Emit sorted_list_of_set 0 ''x'' 42 two_clients) 0)) =
     [\<lparr>Event = ''x'', Data = 42, Namespace = ''/'', Room = ''r1''\<rparr>] \<and>
   cls (Room_Emit sorted_list_of_set 0 ''x'' 42 two_clients) 1 = cls two_clients 1 \<and>
   buf (client_send (cls (Namespace_Emit sorted_list_of_set 0 ''x'' 42 two_clients) 0)) =
     [\<lparr>Event = ''x'', Data = 42, Namespace = ''/'', Room = []\<rparr>] \<and>
   buf (client_send (cls (Namespace_Emit sorted_list_of_set 0 ''x'' 42 two_clients) 1)) =
     [\<lparr>Event = ''x'', Data = 42, Namespace = ''/'', Room = []\<rparr>] \<and>
   buf (client_send (cls (Client_Emit 1 ''x'' 42 two_clients) 1)) =
     [\<lparr>Event = ''x'', Data = 42, Namespace = ''/'', Room = []\<rparr>] \<and>
   cls (Client_Emit 1 ''x'' 42 two_clients) 0 = cls two_clients 0"
proof -
  have r: "ranges (room_clients (rms two_clients 0))
             (sorted_list_of_set (room_clients (rms two_clients 0)))"
    "ranges (ns_clients (nss two_clients 0)) (sorted_list_of_set (ns_clients (nss two_clients 0)))"
    by (simp_all add: ranges_def two_clients_state)
  show ?thesis
    using r C2_emit_scoping [where order = sorted_list_of_set and h = two_clients and r = 0
        and ns = 0 and event = "''x''" and data = 42 and c = 1, OF r]
    by (simp add: two_clients_state full_def receives_def)
qed

text \<open>The claim as stated fails on a member whose queue is full: in \<open>full_queue\<close>
  client 0 is the one member of room 0, and a further \<^verbatim>\<open>Room.Emit\<close> leaves its queue as
  it was instead of adding the message.\<close>

theorem C2_full_member_counterexample:
  "ranges (room_clients (rms full_queue 0))
     (sorted_list_of_set (room_clients (rms full_queue 0))) \<and>
   0 \<in> room_clients (rms full_queue 0) \<and>
   buf (client_send (cls (Room_Emit sorted_list_of_set 0 ''y'' 7 full_queue) 0)) =
     buf (client_send (cls full_queue 0)) \<and>
   buf (client_send (cls (Room_Emit sorted_list_of_set 0 ''y'' 7 full_queue) 0)) \<noteq>
     buf (client_send (cls full_queue 0)) @
       [\<lparr>Event = ''y'', Data = 7, Namespace = ''/'', Room = ''r1''\<rparr>]"
proof -
  have "Room_Emit sorted_list_of_set 0 ''y'' 7 full_queue = full_queue"
    by (simp add: Room_Emit_single [where c = 0] push_full full_queue_full full_queue_state
        two_clients_state)
  then show ?thesis
    by (simp add: ranges_def full_queue_state two_clients_state)
qed

section \<open>Dispatch\<close>

lemma on_each_events:
  "ns_events (nss (on_each ns regs h) ns) event =
     (case last_registered regs event of
        Some g \<Rightarrow> Some g
      | None \<Rightarrow> ns_events (nss h ns) event)"
proof (induction regs arbitrary: h)
  case Nil
  then show ?case by (simp add: last_registered_def)
next
  case (Cons a regs)
  obtain e g where a: "a = (e, g)" by (cases a)
  show ?case
    by (simp add: a Cons.IH last_registered_def Namespace_On_def map_add_def
        split: option.split)
qed

lemma on_each_elsewhere:
  "ns' \<noteq> ns \<Longrightarrow> nss (on_each ns' regs h) ns = nss h ns"
proof (induction regs arbitrary: h)
  case Nil
  then show ?case by simp
next
  case (Cons a regs)
  obtain e g where a: "a = (e, g)" by (cases a)
  show ?case using Cons by (simp add: a Namespace_On_def)
qed

text \<open>Claim C4 (dispatch routing). After any sequence \<open>regs\<close> of \<^verbatim>\<open>On\<close> calls on
  namespace \<open>ns\<close>, \<^verbatim>\<open>handleEvent\<close> for a message \<open>m\<close> runs the handler that the last of
  these calls registered for \<open>Event m\<close>, on the client and on \<open>Data m\<close>, and its result
  is that handler's result (the call is made inside \<^verbatim>\<open>handleEvent\<close>); when none of the
  calls was for that event, the handler registered before them runs, if there is one.
  Registrations on another namespace do not count. With no handler registered for
  \<open>Event m\<close> the state is returned as it is and no handler runs.\<close>

theorem C4_dispatch_routing:
  fixes h :: "('h, 'd) heap"
  shows
  "Namespace_handleEvent call ns c m (on_each ns regs h) =
     (case last_registered regs (Event m) of
        Some handler \<Rightarrow> call handler c (Data m) (on_each ns regs h)
      | None \<Rightarrow>
          (case ns_events (nss h ns) (Event m) of
             Some handler \<Rightarrow> call handler c (Data m) (on_each ns regs h)
           | None \<Rightarrow> on_each ns regs h)) \<and>
   (ns' \<noteq> ns \<longrightarrow>
      Namespace_handleEvent call ns c m (on_each ns' regs h) =
        (case ns_events (nss h ns) (Event m) of
           Some handler \<Rightarrow> call handler c (Data m) (on_each ns' regs h)
         | None \<Rightarrow> on_each ns' regs h)) \<and>
   (ns_events (nss h ns) (Event m) = None \<longrightarrow> Namespace_handleEvent call ns c m h = h)"
  by (simp add: Namespace_handleEvent_def on_each_events on_each_elsewhere split: option.split)

theorem C4_dispatch_routing_witness:
  "last_registered [(''ping'', ''old''), (''ping'', ''pong'')] ''ping'' = Some ''pong'' \<and>
   buf (client_send (cls
     (Namespace_handleEvent echo 0 1 \<lparr>Event = ''ping'', Data = 7, Namespace = [], Room = []\<rparr>
        (on_each 0 [(''ping'', ''old''), (''ping'', ''pong'')] two_clients)) (Suc 0))) =
     [\<lparr>Event = ''pong'', Data = 7, Namespace = ''/'', Room = []\<rparr>] \<and>
   (1::nat) \<noteq> 0 \<and>
   Namespace_handleEvent echo 0 1 \<lparr>Event = ''ping'', Data = 7, Namespace = [], Room = []\<rparr>
     (on_each 1 [(''ping'', ''pong'')] two_clients) = on_each 1 [(''ping'', ''pong'')] two_clients \<and>
   ns_events (nss two_clients 0) ''ping'' = None \<and>
   Namespace_handleEvent echo 0 1 \<lparr>Event = ''ping'', Data = 7, Namespace = [], Room = []\<rparr>
     two_clients = two_clients"
  using
    C4_dispatch_routing [of echo 0 1 "\<lparr>Event = ''ping'', Data = 7, Namespace = [], Room = []\<rparr>"
      "[(''ping'', ''old''), (''ping'', ''pong'')]" two_clients 1]
    C4_dispatch_routing [of echo 0 1 "\<lparr>Event = ''ping'', Data = 7, Namespace = [], Room = []\<rparr>"
      "[(''ping'', ''pong'')]" two_clients 1]
  by (simp add: last_registered_def echo_def Client_Emit_def push_def try_send_def
      Namespace_On_def two_clients_state)

section \<open>Get-or-create\<close>

text \<open>Claim C6 (get-or-create uniqueness). \<^verbatim>\<open>Server.Namespace(n)\<close> returns a pointer
  \<open>p1\<close> under which \<open>n\<close> is then registered, and a second call returns the same pointer
  and changes nothing. When \<open>n\<close> was registered the first call changes nothing either;
  when it was not, the first call allocates exactly one namespace (the next free
  address, an empty namespace named \<open>n\<close>), adds the one entry for \<open>n\<close> to the map and
  leaves every other object as it was. The same holds for \<^verbatim>\<open>Namespace.Room(r)\<close> and the
  room map of its namespace.\<close>

theorem C6_get_or_create:
  fixes h :: "('h, 'd) heap"
  shows
  "(case Server_Namespace n h of (p1, h1) \<Rightarrow>
      Server_Namespace n h1 = (p1, h1) \<and>
      namespaces (srv h1) n = Some p1 \<and>
      (case namespaces (srv h) n of
         Some p \<Rightarrow> p1 = p \<and> h1 = h
       | None \<Rightarrow>
           p1 = next_ns h \<and> next_ns h1 = Suc (next_ns h) \<and>
           namespaces (srv h1) = (namespaces (srv h))(n \<mapsto> p1) \<and>
           nss h1 p1 = \<lparr>ns_name = n, ns_clients = {}, ns_rooms = Map.empty, ns_events = Map.empty\<rparr> \<and>
           (\<forall>q. q \<noteq> p1 \<longrightarrow> nss h1 q = nss h q) \<and>
           rms h1 = rms h \<and> next_room h1 = next_room h \<and>
           cls h1 = cls h \<and> next_client h1 = next_client h)) \<and>
   (case Namespace_Room ns r h of (q1, h1) \<Rightarrow>
      Namespace_Room ns r h1 = (q1, h1) \<and>
      ns_rooms (nss h1 ns) r = Some q1 \<and>
      (case ns_rooms (nss h ns) r of
         Some q \<Rightarrow> q1 = q \<and> h1 = h
       | None \<Rightarrow>
           q1 = next_room h \<and> next_room h1 = Suc (next_room h) \<and>
           ns_rooms (nss h1 ns) = (ns_rooms (nss h ns))(r \<mapsto> q1) \<and>
           rms h1 q1 = \<lparr>room_name = r, room_clients = {}, room_namespace = ns\<rparr> \<and>
           (\<forall>q. q \<noteq> q1 \<longrightarrow> rms h1 q = rms h q) \<and>
           (\<forall>p. p \<noteq> ns \<longrightarrow> nss h1 p = nss h p) \<and>
           ns_name (nss h1 ns) = ns_name (nss h ns) \<and>
           ns_clients (nss h1 ns) = ns_clients (nss h ns) \<and>
           ns_events (nss h1 ns) = ns_events (nss h ns) \<and>
           srv h1 = srv h \<and> next_ns h1 = next_ns h \<and>
           cls h1 = cls h \<and> next_client h1 = next_client h))"
  by (simp add: Server_Namespace_def Namespace_Room_def Let_def split: option.split)

theorem C6_get_or_create_witness:
  "namespaces (srv two_clients) ''/chat'' = None \<and>
   fst (Server_Namespace ''/chat'' two_clients) = 1 \<and>
   Server_Namespace ''/chat'' (snd (Server_Namespace ''/chat'' two_clients)) =
     (1, snd (Server_Namespace ''/chat'' two_clients)) \<and>
   next_ns (snd (Server_Namespace ''/chat'' two_clients)) = 2 \<and>
   nss (snd (Server_Namespace ''/chat'' two_clients)) 0 = nss two_clients 0 \<and>
   Server_Namespace ''/'' two_clients = (0, two_clients) \<and>
   ns_rooms (nss two_clients 0) ''r2'' = None \<and>
   fst (Namespace_Room 0 ''r2'' two_clients) = 1 \<and>
   Namespace_Room 0 ''r2'' (snd (Namespace_Room 0 ''r2'' two_clients)) =
     (1, snd (Namespace_Room 0 ''r2'' two_clients)) \<and>
   next_room (snd (Namespace_Room 0 ''r2'' two_clients)) = 2 \<and>
   rms (snd (Namespace_Room 0 ''r2'' two_clients)) 0 = rms two_clients 0 \<and>
   Namespace_Room 0 ''r1'' two_clients = (0, two_clients)"
  using C6_get_or_create [of "''/chat''" two_clients 0 "''r2''"]
    C6_get_or_create [of "''/''" two_clients 0 "''r1''"]
  by (simp add: two_clients_state split: prod.splits)

section \<open>Join and Leave\<close>

text \<open>Claim C7 (Join/Leave idempotence). A second \<^verbatim>\<open>c.Join(r)\<close> leaves the whole state,
  and so the room's member set and the client's mirror, as the first left it. A
  \<^verbatim>\<open>c.Leave(r)\<close> by a client that has not joined \<open>r\<close> changes no state.\<close>

theorem C7_join_leave_idempotent:
  fixes h :: "('h, 'd) heap"
  shows
  "Client_Join c r (Client_Join c r h) = Client_Join c r h \<and>
   (\<not> joined h c r \<longrightarrow> Client_Leave c r h = h)"
proof
  show "Client_Join c r (Client_Join c r h) = Client_Join c r h"
    by (simp add: Client_Join_def Namespace_Room_def Room_addClient_def Let_def
        split: option.split)
  show "\<not> joined h c r \<longrightarrow> Client_Leave c r h = h"
    by (auto simp add: Client_Leave_def Room_removeClient_def joined_def Let_def
        split: option.splits)
qed

theorem C7_join_leave_idempotent_witness:
  "Client_Join 0 ''r1'' two_clients = two_clients \<and>
   Client_Join 1 ''r2'' (Client_Join 1 ''r2'' two_clients) = Client_Join 1 ''r2'' two_clients \<and>
   \<not> joined two_clients 1 ''r1'' \<and> Client_Leave 1 ''r1'' two_clients = two_clients \<and>
   \<not> joined two_clients 1 ''r2'' \<and> Client_Leave 1 ''r2'' two_clients = two_clients"
proof -
  have j: "\<not> joined two_clients 1 ''r1''" "\<not> joined two_clients 1 ''r2''"
    by (simp_all add: joined_def two_clients_state)
  have "Client_Join 0 ''r1'' two_clients = two_clients"
    using C7_join_leave_idempotent
      [of 0 "''r1''" "ServeWebSocket ''/'' True (ServeWebSocket ''/'' True NewServer)"]
    unfolding two_clients_def by blast
  then show ?thesis
    using j C7_join_leave_idempotent [of 1 "''r2''" two_clients]
      C7_join_leave_idempotent [of 1 "''r1''" two_clients]
    by simp
qed

text \<open>Claim C10 (frame of \<^verbatim>\<open>Leave\<close>). \<^verbatim>\<open>c.Leave(r)\<close> takes \<open>r\<close> out of the mirror of \<open>c\<close>,
  whether or not a room named \<open>r\<close> exists, and changes nothing else of \<open>c\<close>; the
  namespace table, and with it the room map of the namespace of \<open>c\<close>, is unchanged
  and no room is allocated; the server, the other clients and the allocation counters
  are unchanged; the only room that can change is the one registered under \<open>r\<close> in the
  namespace of \<open>c\<close>, which loses \<open>c\<close> from its client set and nothing else.\<close>

theorem C10_leave_frame:
  fixes h :: "('h, 'd) heap"
  shows
  "client_rooms (cls (Client_Leave c r h) c) = client_rooms (cls h c) - {r} \<and>
   client_ID (cls (Client_Leave c r h) c) = client_ID (cls h c) \<and>
   client_conn (cls (Client_Leave c r h) c) = client_conn (cls h c) \<and>
   client_namespace (cls (Client_Leave c r h) c) = client_namespace (cls h c) \<and>
   client_send (cls (Client_Leave c r h) c) = client_send (cls h c) \<and>
   (\<forall>c'. c' \<noteq> c \<longrightarrow> cls (Client_Leave c r h) c' = cls h c') \<and>
   nss (Client_Leave c r h) = nss h \<and> next_room (Client_Leave c r h) = next_room h \<and>
   srv (Client_Leave c r h) = srv h \<and> next_ns (Client_Leave c r h) = next_ns h \<and>
   next_client (Client_Leave c r h) = next_client h \<and>
   (\<forall>p. rms (Client_Leave c r h) p =
      (if ns_rooms (nss h (client_namespace (cls h c))) r = Some p
       then (rms h p)\<lparr>room_clients := room_clients (rms h p) - {c}\<rparr>
       else rms h p))"
  by (simp add: Client_Leave_def Room_removeClient_def Let_def split: option.split)

theorem C10_leave_frame_witness:
  "ns_rooms (nss two_clients (client_namespace (cls two_clients 0))) ''r2'' = None \<and>
   client_rooms (cls (Client_Leave 0 ''r2'' two_clients) 0) = {''r1''} \<and>
   rms (Client_Leave 0 ''r2'' two_clients) 0 = rms two_clients 0 \<and>
   ns_rooms (nss (Client_Leave 0 ''r2'' two_clients) 0) ''r2'' = None \<and>
   next_room (Client_Leave 0 ''r2'' two_clients) = 1 \<and>
   client_rooms (cls (Client_Leave 0 ''r1'' two_clients) 0) = {} \<and>
   cls (Client_Leave 0 ''r1'' two_clients) (Suc 0) = cls two_clients (Suc 0) \<and>
   rms (Client_Leave 0 ''r1'' two_clients) 0 =
     \<lparr>room_name = ''r1'', room_clients = {}, room_namespace = 0\<rparr> \<and>
   nss (Client_Leave 0 ''r1'' two_clients) = nss two_clients"
  using C10_leave_frame [of 0 "''r1''" two_clients] C10_leave_frame [of 0 "''r2''" two_clients]
  by (simp add: two_clients_state)

section \<open>Consistency of the store and the room-subset property\<close>

lemmas inv_defs = consistent_def mirror_ok_def registry_ok_def alloc_ok_def subset_ok_def

lemma consistent_NewServer: "consistent NewServer" "subset_ok NewServer"
  by (simp_all add: inv_defs NewServer_def)

lemma consistent_Server_Namespace:
  assumes "consistent h"
  shows "consistent (snd (Server_Namespace name h))"
proof (cases "namespaces (srv h) name")
  case None
  have m: "mirror_ok h" and r: "registry_ok h" and a: "alloc_ok h"
    using assms by (simp_all add: consistent_def)
  have fresh: "\<And>p c. c \<in> room_clients (rms h p) \<Longrightarrow> client_namespace (cls h c) \<noteq> next_ns h"
    using a by (fastforce simp: alloc_ok_def)
  show ?thesis
    using None m r a fresh
    by (auto simp add: Server_Namespace_def Let_def inv_defs less_Suc_eq)
next
  case (Some ns)
  then show ?thesis using assms by (simp add: Server_Namespace_def)
qed

lemma room_namespace_of_member:
  "consistent h \<Longrightarrow> c \<in> room_clients (rms h p) \<Longrightarrow>
   room_namespace (rms h p) = client_namespace (cls h c) \<and> c < next_client h \<and>
   client_namespace (cls h c) < next_ns h \<and> p < next_room h"
  unfolding inv_defs by metis

lemma subset_ok_iff:
  "subset_ok h \<longleftrightarrow>
     (\<forall>p c. c \<in> room_clients (rms h p) \<longrightarrow> c \<in> ns_clients (nss h (room_namespace (rms h p))))"
  by (auto simp add: subset_ok_def)

lemma subset_Server_Namespace:
  assumes "consistent h" and "subset_ok h"
  shows "subset_ok (snd (Server_Namespace name h))"
proof (cases "namespaces (srv h) name")
  case None
  have "\<And>p c. c \<in> room_clients (rms h p) \<Longrightarrow> room_namespace (rms h p) \<noteq> next_ns h"
    using room_namespace_of_member [OF assms(1)] by fastforce
  then show ?thesis
    using None assms(2)
    by (auto simp add: Server_Namespace_def Let_def subset_ok_iff)
next
  case (Some ns)
  then show ?thesis using assms by (simp add: Server_Namespace_def)
qed

lemma Server_Namespace_allocated:
  "alloc_ok h \<Longrightarrow> fst (Server_Namespace name h) < next_ns (snd (Server_Namespace name h))"
  by (auto simp add: Server_Namespace_def Let_def alloc_ok_def split: option.split)

lemma consistent_Namespace_Room:
  assumes "consistent h"
  shows "consistent (snd (Namespace_Room ns name h))"
proof (cases "ns_rooms (nss h ns) name")
  case None
  have m: "mirror_ok h" and r: "registry_ok h" and a: "alloc_ok h"
    using assms by (simp_all add: consistent_def)
  have fresh: "\<And>p c. c \<in> room_clients (rms h p) \<Longrightarrow> p \<noteq> next_room h"
    using room_namespace_of_member [OF assms] by fastforce
  have m': "mirror_ok (snd (Namespace_Room ns name h))"
    using None m fresh
    by (auto simp add: Namespace_Room_def Let_def mirror_ok_def)
  have r': "registry_ok (snd (Namespace_Room ns name h))"
    using None r
    by (auto simp add: Namespace_Room_def Let_def registry_ok_def less_Suc_eq)
  have a': "alloc_ok (snd (Namespace_Room ns name h))"
    using None a fresh
    by (auto simp add: Namespace_Room_def Let_def alloc_ok_def)
  show ?thesis using m' r' a' by (simp add: consistent_def)
next
  case (Some p)
  then show ?thesis using assms by (simp add: Namespace_Room_def)
qed

lemma subset_Namespace_Room:
  assumes "subset_ok h"
  shows "subset_ok (snd (Namespace_Room ns name h))"
  using assms
  by (auto simp add: Namespace_Room_def Let_def subset_ok_iff split: option.split)

lemma Namespace_Room_registered:
  "ns_rooms (nss (snd (Namespace_Room ns name h)) ns) name = Some (fst (Namespace_Room ns name h))"
  by (simp add: Namespace_Room_def Let_def split: option.split)

lemma Namespace_Room_cls: "cls (snd (Namespace_Room ns name h)) = cls h"
  and Namespace_Room_next_client: "next_client (snd (Namespace_Room ns name h)) = next_client h"
  and Namespace_Room_ns_clients:
    "ns_clients (nss (snd (Namespace_Room ns name h)) n) = ns_clients (nss h n)"
  by (simp_all add: Namespace_Room_def Let_def split: option.split)

lemma consistent_Namespace_On: "consistent h \<Longrightarrow> consistent (Namespace_On ns e g h)"
  by (auto simp add: Namespace_On_def inv_defs)

lemma subset_Namespace_On: "subset_ok h \<Longrightarrow> subset_ok (Namespace_On ns e g h)"
  by (auto simp add: Namespace_On_def subset_ok_iff)

lemma push_each_client:
  "client_namespace (cls (push_each msg ks h) c) = client_namespace (cls h c) \<and>
   client_rooms (cls (push_each msg ks h) c) = client_rooms (cls h c)"
  by (induction ks arbitrary: h) (simp_all add: push_def)

lemma consistent_push_each: "consistent h \<Longrightarrow> consistent (push_each msg ks h)"
  by (simp add: inv_defs push_each_frame push_each_client)

lemma subset_push_each: "subset_ok h \<Longrightarrow> subset_ok (push_each msg ks h)"
  by (simp add: subset_ok_iff push_each_frame)

lemma consistent_addClient: "consistent h \<Longrightarrow> consistent (Namespace_addClient ns c h)"
  by (auto simp add: Namespace_addClient_def inv_defs)

lemma subset_addClient: "subset_ok h \<Longrightarrow> subset_ok (Namespace_addClient ns c h)"
  by (auto simp add: Namespace_addClient_def subset_ok_iff)

lemma consistent_removeClient: "consistent h \<Longrightarrow> consistent (Namespace_removeClient ns c h)"
  by (auto simp add: Namespace_removeClient_def inv_defs)

lemma consistent_push: "consistent h \<Longrightarrow> consistent (push msg c h)"
  using consistent_push_each [of h msg "[c]"] by simp

lemma subset_push: "subset_ok h \<Longrightarrow> subset_ok (push msg c h)"
  using subset_push_each [of h msg "[c]"] by simp

lemma consistent_new_client:
  assumes "consistent h" and "ns < next_ns h"
  shows "consistent (h\<lparr>cls := (cls h)(next_client h := \<lparr>client_ID = i, client_conn = True,
           client_namespace = ns, client_rooms = {}, client_send = q\<rparr>),
         next_client := Suc (next_client h)\<rparr>)"
proof -
  have "\<And>p c. c \<in> room_clients (rms h p) \<Longrightarrow> c \<noteq> next_client h"
    using room_namespace_of_member [OF assms(1)] by fastforce
  then show ?thesis
    using assms by (auto simp add: inv_defs less_Suc_eq)
qed

lemma consistent_ServeWebSocket:
  assumes "consistent h"
  shows "consistent (ServeWebSocket name up h)"
proof (cases up)
  case False
  then show ?thesis using assms by (simp add: ServeWebSocket_def)
next
  case True
  obtain ns h1 where s: "Server_Namespace name h = (ns, h1)" by (cases "Server_Namespace name h")
  have c1: "consistent h1" using consistent_Server_Namespace [OF assms, of name] s by simp
  have "alloc_ok h" using assms by (simp add: consistent_def)
  from Server_Namespace_allocated [OF this, of name] have "ns < next_ns h1" using s by simp
  from consistent_new_client [OF c1 this] show ?thesis
    using True s by (simp add: ServeWebSocket_def Let_def consistent_addClient)
qed

lemma subset_ServeWebSocket:
  assumes "consistent h" and "subset_ok h"
  shows "subset_ok (ServeWebSocket name up h)"
proof (cases up)
  case False
  then show ?thesis using assms by (simp add: ServeWebSocket_def)
next
  case True
  obtain ns h1 where s: "Server_Namespace name h = (ns, h1)" by (cases "Server_Namespace name h")
  have "subset_ok h1" using subset_Server_Namespace [OF assms, of name] s by simp
  then have "subset_ok (h1\<lparr>cls := (cls h1)(next_client h1 := \<lparr>client_ID = generateID, client_conn = True,
           client_namespace = ns, client_rooms = {}, client_send = \<lparr>cap = 256, buf = []\<rparr>\<rparr>),
         next_client := Suc (next_client h1)\<rparr>)"
    by (simp add: subset_ok_iff)
  then show ?thesis
    using True s by (simp add: ServeWebSocket_def Let_def subset_addClient)
qed


lemma consistent_mirror_insert:
  "consistent h \<Longrightarrow>
   consistent (h\<lparr>cls := (cls h)(c := (cls h c)\<lparr>client_rooms := insert r (client_rooms (cls h c))\<rparr>)\<rparr>)"
  by (auto simp add: inv_defs)

lemma consistent_Room_addClient:
  assumes "consistent h" and "c < next_client h"
    and "ns_rooms (nss h (client_namespace (cls h c))) r = Some p"
    and "r \<in> client_rooms (cls h c)"
  shows "consistent (Room_addClient p c h)"
proof -
  have m: "mirror_ok h" and g: "registry_ok h" and a: "alloc_ok h"
    using assms(1) by (simp_all add: consistent_def)
  have rn: "room_name (rms h p) = r" using g assms(3) by (auto simp add: registry_ok_def)
  have "mirror_ok (Room_addClient p c h)"
    unfolding mirror_ok_def
  proof (intro allI impI)
    fix q c'
    assume "c' \<in> room_clients (rms (Room_addClient p c h) q)"
    then consider "q = p \<and> c' = c" | "c' \<in> room_clients (rms h q)"
      by (auto simp add: Room_addClient_def split: if_splits)
    then show "ns_rooms (nss (Room_addClient p c h) (client_namespace (cls (Room_addClient p c h) c')))
                 (room_name (rms (Room_addClient p c h) q)) = Some q \<and>
               room_name (rms (Room_addClient p c h) q) \<in> client_rooms (cls (Room_addClient p c h) c')"
    proof cases
      case 1
      then show ?thesis using assms(3,4) rn by (simp add: Room_addClient_def)
    next
      case 2
      then have "ns_rooms (nss h (client_namespace (cls h c'))) (room_name (rms h q)) = Some q \<and>
                 room_name (rms h q) \<in> client_rooms (cls h c')"
        using m by (simp add: mirror_ok_def)
      then show ?thesis by (cases "q = p") (simp_all add: Room_addClient_def)
    qed
  qed
  moreover have "registry_ok (Room_addClient p c h)"
    using g by (simp add: Room_addClient_def registry_ok_def)
  moreover have "alloc_ok (Room_addClient p c h)"
    using a assms(2) by (auto simp add: Room_addClient_def alloc_ok_def)
  ultimately show ?thesis by (simp add: consistent_def)
qed

lemma consistent_Client_Join:
  assumes "consistent h" and "c < next_client h"
  shows "consistent (Client_Join c r h)"
proof -
  define h1 where "h1 = h\<lparr>cls := (cls h)(c := (cls h c)\<lparr>client_rooms := insert r (client_rooms (cls h c))\<rparr>)\<rparr>"
  define ns where "ns = client_namespace (cls h1 c)"
  obtain p h2 where s: "Namespace_Room ns r h1 = (p, h2)" by (cases "Namespace_Room ns r h1")
  have c1: "consistent h1" unfolding h1_def by (rule consistent_mirror_insert [OF assms(1)])
  have c2: "consistent h2" using consistent_Namespace_Room [OF c1, of ns r] s by simp
  have cl: "cls h2 = cls h1" "next_client h2 = next_client h1"
    using Namespace_Room_cls [of ns r h1] Namespace_Room_next_client [of ns r h1] s by simp_all
  have reg: "ns_rooms (nss h2 ns) r = Some p"
    using Namespace_Room_registered [of ns r h1] s by simp
  have "consistent (Room_addClient p c h2)"
    using c2 assms(2) reg by (intro consistent_Room_addClient [where r = r]) (simp_all add: cl h1_def ns_def)
  then show ?thesis
    using s by (simp add: Client_Join_def Let_def h1_def [symmetric] ns_def [symmetric])
qed

lemma subset_Client_Join:
  assumes "consistent h" and "subset_ok h"
    and "c \<in> ns_clients (nss h (client_namespace (cls h c)))"
  shows "subset_ok (Client_Join c r h)"
proof -
  define h1 where "h1 = h\<lparr>cls := (cls h)(c := (cls h c)\<lparr>client_rooms := insert r (client_rooms (cls h c))\<rparr>)\<rparr>"
  define ns where "ns = client_namespace (cls h1 c)"
  obtain p h2 where s: "Namespace_Room ns r h1 = (p, h2)" by (cases "Namespace_Room ns r h1")
  have c1: "consistent h1" unfolding h1_def by (rule consistent_mirror_insert [OF assms(1)])
  have c2: "consistent h2" using consistent_Namespace_Room [OF c1, of ns r] s by simp
  have s1: "subset_ok h1" using assms(2) by (simp add: h1_def subset_ok_iff)
  have s2: "subset_ok h2" using subset_Namespace_Room [OF s1, of ns r] s by simp
  have reg: "ns_rooms (nss h2 ns) r = Some p"
    using Namespace_Room_registered [of ns r h1] s by simp
  have rn: "room_namespace (rms h2 p) = ns" using c2 reg by (auto simp add: inv_defs)
  have "ns_clients (nss h2 ns) = ns_clients (nss h ns)"
    using Namespace_Room_ns_clients [of ns r h1 ns] s by (simp add: h1_def)
  then have "c \<in> ns_clients (nss h2 ns)" using assms(3) by (simp add: ns_def h1_def)
  then have "subset_ok (Room_addClient p c h2)"
    using s2 rn by (auto simp add: Room_addClient_def subset_ok_iff)
  then show ?thesis
    using s by (simp add: Client_Join_def Let_def h1_def [symmetric] ns_def [symmetric])
qed


lemma consistent_Client_Leave:
  assumes "consistent h"
  shows "consistent (Client_Leave c r h)"
proof -
  have m: "mirror_ok h" and g: "registry_ok h" and a: "alloc_ok h"
    using assms by (simp_all add: consistent_def)
  have "mirror_ok (Client_Leave c r h)"
    using m by (auto simp add: Client_Leave_def Room_removeClient_def Let_def mirror_ok_def
        split: option.split)
  moreover have "registry_ok (Client_Leave c r h)"
    using g by (auto simp add: Client_Leave_def Room_removeClient_def Let_def registry_ok_def
        split: option.split)
  moreover have "alloc_ok (Client_Leave c r h)"
    using a by (auto simp add: Client_Leave_def Room_removeClient_def Let_def alloc_ok_def
        split: option.split)
  ultimately show ?thesis by (simp add: consistent_def)
qed

lemma Client_Leave_effect:
  "nss (Client_Leave c r h) = nss h"
  "room_namespace (rms (Client_Leave c r h) p) = room_namespace (rms h p)"
  "room_clients (rms (Client_Leave c r h) p) \<subseteq> room_clients (rms h p)"
  "client_rooms (cls (Client_Leave c r h) c) = client_rooms (cls h c) - {r}"
  "client_namespace (cls (Client_Leave c r h) c') = client_namespace (cls h c')"
  by (auto simp add: Client_Leave_def Room_removeClient_def Let_def split: option.split)

lemma Client_Leave_mono:
  "c' \<in> room_clients (rms (Client_Leave c r h) p) \<Longrightarrow> c' \<in> room_clients (rms h p)"
  using Client_Leave_effect(3) [of c r h p] by blast

lemma subset_Client_Leave: "subset_ok h \<Longrightarrow> subset_ok (Client_Leave c r h)"
  unfolding subset_ok_iff
  by (simp add: Client_Leave_effect(1,2)) (blast dest: Client_Leave_mono)

lemma leave_each_effect:
  "nss (leave_each c rs h) = nss h \<and>
   (\<forall>p. room_namespace (rms (leave_each c rs h) p) = room_namespace (rms h p)) \<and>
   (\<forall>p. room_clients (rms (leave_each c rs h) p) \<subseteq> room_clients (rms h p)) \<and>
   client_rooms (cls (leave_each c rs h) c) = client_rooms (cls h c) - set rs \<and>
   (\<forall>c'. client_namespace (cls (leave_each c rs h) c') = client_namespace (cls h c'))"
proof (induction rs arbitrary: h)
  case Nil
  then show ?case by simp
next
  case (Cons r rs)
  have a: "nss (leave_each c rs (Client_Leave c r h)) = nss h"
    using Cons.IH [of "Client_Leave c r h"] by (simp add: Client_Leave_effect(1))
  have b: "\<And>p. room_namespace (rms (leave_each c rs (Client_Leave c r h)) p) = room_namespace (rms h p)"
    using Cons.IH [of "Client_Leave c r h"] by (simp add: Client_Leave_effect(2))
  have c: "\<And>p. room_clients (rms (leave_each c rs (Client_Leave c r h)) p) \<subseteq> room_clients (rms h p)"
  proof -
    fix p
    have "room_clients (rms (leave_each c rs (Client_Leave c r h)) p) \<subseteq> room_clients (rms (Client_Leave c r h) p)"
      using Cons.IH [of "Client_Leave c r h"] by blast
    also have "\<dots> \<subseteq> room_clients (rms h p)" by (rule Client_Leave_effect(3))
    finally show "room_clients (rms (leave_each c rs (Client_Leave c r h)) p) \<subseteq> room_clients (rms h p)" .
  qed
  have d: "client_rooms (cls (leave_each c rs (Client_Leave c r h)) c) = client_rooms (cls h c) - set (r # rs)"
    using Cons.IH [of "Client_Leave c r h"] by (auto simp add: Client_Leave_effect(4))
  have e: "\<And>c'. client_namespace (cls (leave_each c rs (Client_Leave c r h)) c') = client_namespace (cls h c')"
    using Cons.IH [of "Client_Leave c r h"] by (simp add: Client_Leave_effect(5))
  show ?case using a b c d e by simp
qed

lemma consistent_leave_each: "consistent h \<Longrightarrow> consistent (leave_each c rs h)"
  by (induction rs arbitrary: h) (simp_all add: consistent_Client_Leave)

lemma leave_each_in_no_room:
  assumes "consistent h" and "client_rooms (cls h c) \<subseteq> set rs"
  shows "c \<notin> room_clients (rms (leave_each c rs h) p)"
proof
  assume "c \<in> room_clients (rms (leave_each c rs h) p)"
  moreover have "mirror_ok (leave_each c rs h)"
    using consistent_leave_each [OF assms(1)] by (simp add: consistent_def)
  ultimately have "room_name (rms (leave_each c rs h) p) \<in> client_rooms (cls (leave_each c rs h) c)"
    by (simp add: mirror_ok_def)
  then show False using assms(2) leave_each_effect [of c rs h] by auto
qed

lemma consistent_conn:
  "consistent h \<Longrightarrow> consistent (h\<lparr>cls := (cls h)(c := (cls h c)\<lparr>client_conn := b\<rparr>)\<rparr>)"
  by (auto simp add: inv_defs)

lemma consistent_readPump_deferred:
  "consistent h \<Longrightarrow> consistent (readPump_deferred order c h)"
  by (simp add: readPump_deferred_def Let_def consistent_conn consistent_leave_each
      consistent_removeClient)

lemma readPump_deferred_effect:
  "nss (readPump_deferred order c h) =
     nss (Namespace_removeClient (client_namespace (cls h c)) c h)"
  "rms (readPump_deferred order c h) =
     rms (leave_each c (order (client_rooms (cls h c)))
            (Namespace_removeClient (client_namespace (cls h c)) c h))"
  "client_rooms (cls (readPump_deferred order c h) c) =
     client_rooms (cls h c) - set (order (client_rooms (cls h c)))"
  "client_namespace (cls (readPump_deferred order c h) c') = client_namespace (cls h c')"
  using leave_each_effect [of c "order (client_rooms (cls h c))"
      "Namespace_removeClient (client_namespace (cls h c)) c h"]
  by (simp_all add: readPump_deferred_def Let_def Namespace_removeClient_def)

lemma readPump_deferred_not_in_namespace:
  "c \<notin> ns_clients (nss (readPump_deferred order c h)
                      (client_namespace (cls (readPump_deferred order c h) c)))"
  by (simp add: readPump_deferred_effect(1,4)) (simp add: Namespace_removeClient_def)

lemma readPump_deferred_in_no_room:
  assumes "consistent h" and "client_rooms (cls h c) \<subseteq> set (order (client_rooms (cls h c)))"
  shows "c \<notin> room_clients (rms (readPump_deferred order c h) p)"
proof -
  have "consistent (Namespace_removeClient (client_namespace (cls h c)) c h)"
    by (rule consistent_removeClient [OF assms(1)])
  moreover have "client_rooms (cls (Namespace_removeClient (client_namespace (cls h c)) c h) c)
                   \<subseteq> set (order (client_rooms (cls h c)))"
    using assms(2) by (simp add: Namespace_removeClient_def)
  ultimately show ?thesis
    by (simp add: readPump_deferred_effect(2) leave_each_in_no_room)
qed

lemma leave_each_left:
  "r \<in> set rs \<Longrightarrow> ns_rooms (nss h (client_namespace (cls h c))) r = Some p \<Longrightarrow>
   c \<notin> room_clients (rms (leave_each c rs h) p)"
proof (induction rs arbitrary: h)
  case Nil
  then show ?case by simp
next
  case (Cons a rs)
  show ?case
  proof (cases "a = r")
    case True
    have "c \<notin> room_clients (rms (Client_Leave c r h) p)"
      using Cons.prems(2) by (simp add: Client_Leave_def Room_removeClient_def Let_def)
    moreover have "room_clients (rms (leave_each c rs (Client_Leave c r h)) p)
                     \<subseteq> room_clients (rms (Client_Leave c r h) p)"
      using leave_each_effect [of c rs "Client_Leave c r h"] by blast
    ultimately show ?thesis using True by auto
  next
    case False
    then have "r \<in> set rs" using Cons.prems(1) by simp
    moreover have "ns_rooms (nss (Client_Leave c a h) (client_namespace (cls (Client_Leave c a h) c))) r = Some p"
      using Cons.prems(2) by (simp add: Client_Leave_effect(1,5))
    ultimately show ?thesis using Cons.IH [of "Client_Leave c a h"] by simp
  qed
qed

lemma readPump_deferred_left:
  assumes "r \<in> set (order (client_rooms (cls h c)))"
    and "ns_rooms (nss h (client_namespace (cls h c))) r = Some p"
  shows "c \<notin> room_clients (rms (readPump_deferred order c h) p)"
proof -
  have "ns_rooms (nss (Namespace_removeClient (client_namespace (cls h c)) c h)
          (client_namespace (cls (Namespace_removeClient (client_namespace (cls h c)) c h) c))) r = Some p"
    using assms(2) by (simp add: Namespace_removeClient_def)
  from leave_each_left [OF assms(1) this] show ?thesis
    by (simp add: readPump_deferred_effect(2))
qed

lemma subset_readPump_deferred:
  assumes "consistent h" and "subset_ok h"
    and "client_rooms (cls h c) \<subseteq> set (order (client_rooms (cls h c)))"
  shows "subset_ok (readPump_deferred order c h)"
  unfolding subset_ok_iff
proof (intro allI impI)
  fix p c'
  let ?h1 = "Namespace_removeClient (client_namespace (cls h c)) c h"
  let ?rs = "order (client_rooms (cls h c))"
  assume in': "c' \<in> room_clients (rms (readPump_deferred order c h) p)"
  with readPump_deferred_in_no_room [where order = order and h = h and c = c and p = p,
      OF assms(1,3)]
  have ne: "c' \<noteq> c" by auto
  have "room_clients (rms (leave_each c ?rs ?h1) p) \<subseteq> room_clients (rms ?h1 p)"
    using leave_each_effect [of c ?rs ?h1] by blast
  with in' have "c' \<in> room_clients (rms h p)"
    by (auto simp add: readPump_deferred_effect(2) Namespace_removeClient_def)
  with assms(2) have "c' \<in> ns_clients (nss h (room_namespace (rms h p)))"
    by (simp add: subset_ok_iff)
  moreover have "room_namespace (rms (readPump_deferred order c h) p) = room_namespace (rms h p)"
    using leave_each_effect [of c ?rs ?h1]
    by (simp add: readPump_deferred_effect(2) Namespace_removeClient_def)
  ultimately show "c' \<in> ns_clients (nss (readPump_deferred order c h)
                                       (room_namespace (rms (readPump_deferred order c h) p)))"
    using ne by (auto simp add: readPump_deferred_effect(1) Namespace_removeClient_def)
qed

lemma consistent_writePump_iteration:
  "consistent h \<Longrightarrow> consistent (writePump_iteration c written h)"
  by (auto simp add: writePump_iteration_def inv_defs split: list.split)

lemma subset_writePump_iteration:
  "subset_ok h \<Longrightarrow> subset_ok (writePump_iteration c written h)"
  by (auto simp add: writePump_iteration_def subset_ok_iff split: list.split)

lemma reachable_consistent: "reachable h \<Longrightarrow> consistent h"
proof (induction rule: reachable.induct)
  case new_server
  show ?case by (rule consistent_NewServer)
next
  case (namespace h name)
  then show ?case by (simp add: consistent_Server_Namespace)
next
  case (on h ns event handler)
  then show ?case by (simp add: consistent_Namespace_On)
next
  case (room h ns name)
  then show ?case by (simp add: consistent_Namespace_Room)
next
  case (namespace_emit h ns order event data)
  then show ?case by (simp add: Namespace_Emit_def Let_def consistent_push_each)
next
  case (room_emit h r order event data)
  then show ?case by (simp add: Room_Emit_def Let_def consistent_push_each)
next
  case (client_emit h c event data)
  then show ?case by (simp add: Client_Emit_def Let_def consistent_push)
next
  case (wrote h c written)
  then show ?case by (simp add: consistent_writePump_iteration)
next
  case (accept h name upgraded)
  then show ?case by (simp add: consistent_ServeWebSocket)
next
  case (add_client h ns c)
  then show ?case by (simp add: consistent_addClient)
next
  case (join h c roomName)
  then show ?case by (simp add: consistent_Client_Join)
next
  case (leave h c roomName)
  then show ?case by (simp add: consistent_Client_Leave)
next
  case (teardown h c rooms_order)
  then show ?case by (simp add: consistent_readPump_deferred)
qed

text \<open>Claim C8 (room-subset invariant), as the code keeps it. In every state reached
  from \<^verbatim>\<open>NewServer()\<close> by accepted connections, namespace and room lookups, handler
  registrations, the three emits, writes of the outbound pump, \<^verbatim>\<open>Namespace.addClient\<close>,
  \<^verbatim>\<open>Leave\<close>, \<^verbatim>\<open>Join\<close> by a client that is in the client set of its namespace, and whole
  teardowns of a client (the function \<^verbatim>\<open>readPump\<close> defers: \<^verbatim>\<open>removeClient\<close> and then a
  \<^verbatim>\<open>Leave\<close> for every mirrored room), each room's client set is a subset of its
  namespace's client set.\<close>

theorem C8_room_subset: "reachable h \<Longrightarrow> subset_ok h"
proof (induction rule: reachable.induct)
  case new_server
  show ?case by (rule consistent_NewServer)
next
  case (namespace h name)
  then show ?case by (simp add: subset_Server_Namespace reachable_consistent)
next
  case (on h ns event handler)
  then show ?case by (simp add: subset_Namespace_On)
next
  case (room h ns name)
  then show ?case by (simp add: subset_Namespace_Room)
next
  case (namespace_emit h ns order event data)
  then show ?case by (simp add: Namespace_Emit_def Let_def subset_push_each)
next
  case (room_emit h r order event data)
  then show ?case by (simp add: Room_Emit_def Let_def subset_push_each)
next
  case (client_emit h c event data)
  then show ?case by (simp add: Client_Emit_def Let_def subset_push)
next
  case (wrote h c written)
  then show ?case by (simp add: subset_writePump_iteration)
next
  case (accept h name upgraded)
  then show ?case by (simp add: subset_ServeWebSocket reachable_consistent)
next
  case (add_client h ns c)
  then show ?case by (simp add: subset_addClient)
next
  case (join h c roomName)
  then show ?case by (simp add: subset_Client_Join reachable_consistent)
next
  case (leave h c roomName)
  then show ?case by (simp add: subset_Client_Leave)
next
  case (teardown h c rooms_order)
  then show ?case by (simp add: subset_readPump_deferred reachable_consistent ranges_def)
qed

lemma reachable_two_clients: "reachable two_clients"
proof -
  have a: "reachable (ServeWebSocket ''/'' True (ServeWebSocket ''/'' True
             (NewServer :: (string, nat) heap)))"
    by (intro reachable.accept reachable.new_server)
  show ?thesis
    unfolding two_clients_def
    by (rule reachable.join [OF a])
      (simp_all add: ServeWebSocket_def Server_Namespace_def Namespace_addClient_def
        NewServer_def Let_def)
qed

theorem C8_room_subset_witness:
  "reachable two_clients \<and> subset_ok two_clients \<and>
   room_clients (rms two_clients 0) \<subseteq>
     ns_clients (nss two_clients (room_namespace (rms two_clients 0)))"
  using reachable_two_clients C8_room_subset [OF reachable_two_clients]
  by (simp add: subset_ok_def)

text \<open>The claim as stated, over arbitrary sequences of the operations it lists, fails
  in two ways. After \<^verbatim>\<open>removeClient\<close> alone (the state between the two halves of the
  deferred function) client 0 is still a member of room 0 and no longer a client of
  the namespace. And a \<^verbatim>\<open>Join\<close> by a client that has been torn down puts it into a room
  of a namespace it is not registered in: \<^verbatim>\<open>Join\<close> has no check of the namespace's
  client set.\<close>

theorem C8_room_subset_counterexample:
  "0 \<in> room_clients (rms (Namespace_removeClient 0 0 two_clients) 0) \<and>
   0 \<notin> ns_clients (nss (Namespace_removeClient 0 0 two_clients)
                      (room_namespace (rms (Namespace_removeClient 0 0 two_clients) 0))) \<and>
   \<not> subset_ok (Namespace_removeClient 0 0 two_clients) \<and>
   ranges (client_rooms (cls two_clients 0)) (sorted_list_of_set (client_rooms (cls two_clients 0))) \<and>
   0 \<in> room_clients
         (rms (Client_Join 0 ''r1'' (readPump_deferred sorted_list_of_set 0 two_clients)) 0) \<and>
   0 \<notin> ns_clients
         (nss (Client_Join 0 ''r1'' (readPump_deferred sorted_list_of_set 0 two_clients))
            (room_namespace
               (rms (Client_Join 0 ''r1'' (readPump_deferred sorted_list_of_set 0 two_clients)) 0))) \<and>
   \<not> subset_ok (Client_Join 0 ''r1'' (readPump_deferred sorted_list_of_set 0 two_clients))"
proof -
  let ?a = "Namespace_removeClient 0 0 two_clients"
  let ?b = "Client_Join 0 ''r1'' (readPump_deferred sorted_list_of_set 0 two_clients)"
  have a: "0 \<in> room_clients (rms ?a 0)"
    "0 \<notin> ns_clients (nss ?a (room_namespace (rms ?a 0)))"
    by (simp_all add: Namespace_removeClient_def two_clients_state)
  have b: "0 \<in> room_clients (rms ?b 0)"
    "0 \<notin> ns_clients (nss ?b (room_namespace (rms ?b 0)))"
    by (simp_all add: Client_Join_def Namespace_Room_def Room_addClient_def
        readPump_deferred_def Client_Leave_def Room_removeClient_def Namespace_removeClient_def
        Let_def two_clients_state)
  have "\<not> subset_ok ?a" using a by (auto simp add: subset_ok_def)
  moreover have "\<not> subset_ok ?b" using b by (auto simp add: subset_ok_def)
  moreover have "ranges (client_rooms (cls two_clients 0))
                   (sorted_list_of_set (client_rooms (cls two_clients 0)))"
    by (simp add: ranges_def two_clients_state)
  ultimately show ?thesis using a b by simp
qed

section \<open>Teardown\<close>

lemma read_loop_breaks: "(read_loop call c fs h \<noteq> None) = (ReadError \<in> set fs)"
proof (induction fs arbitrary: h)
  case Nil
  then show ?case by simp
next
  case (Cons f fs)
  then show ?case by (cases f) simp_all
qed

text \<open>Claim C5 (teardown cascade). Let the loop of \<^verbatim>\<open>readPump\<close> break at a read error in
  state \<open>hb\<close>, and let the range over \<^verbatim>\<open>c.rooms\<close> yield its keys in some order. Then the
  pump returns, in a state \<open>h'\<close> where \<open>c\<close> is not in the client set of its namespace,
  the mirror of \<open>c\<close> is empty, and \<open>c\<close> is in the client set of no room that its mirror
  named at the break; in a consistent store, which is what \<^verbatim>\<open>Join\<close> and \<^verbatim>\<open>Leave\<close> keep so
  that every room \<open>c\<close> has joined and not left is in its mirror, \<open>c\<close> is in no room's
  client set at all.\<close>

theorem C5_teardown_cascade:
  assumes "read_loop call c fs h = Some hb"
    and "ranges (client_rooms (cls hb c)) (order (client_rooms (cls hb c)))"
  shows "\<exists>h'. readPump call c fs order h = Some h' \<and>
           client_namespace (cls h' c) = client_namespace (cls hb c) \<and>
           c \<notin> ns_clients (nss h' (client_namespace (cls h' c))) \<and>
           (\<forall>r p. r \<in> client_rooms (cls hb c) \<and>
                  ns_rooms (nss hb (client_namespace (cls hb c))) r = Some p \<longrightarrow>
                  c \<notin> room_clients (rms h' p)) \<and>
           (consistent hb \<longrightarrow> (\<forall>p. c \<notin> room_clients (rms h' p))) \<and>
           client_rooms (cls h' c) = {}"
proof -
  have rs: "set (order (client_rooms (cls hb c))) = client_rooms (cls hb c)"
    using assms(2) by (simp add: ranges_def)
  have "readPump call c fs order h = Some (readPump_deferred order c hb)"
    using assms(1) by (simp add: readPump_def)
  moreover have "client_namespace (cls (readPump_deferred order c hb) c) =
                   client_namespace (cls hb c)"
    by (rule readPump_deferred_effect(4))
  moreover have "c \<notin> ns_clients (nss (readPump_deferred order c hb)
                    (client_namespace (cls (readPump_deferred order c hb) c)))"
    by (rule readPump_deferred_not_in_namespace)
  moreover have "\<forall>r p. r \<in> client_rooms (cls hb c) \<and>
                  ns_rooms (nss hb (client_namespace (cls hb c))) r = Some p \<longrightarrow>
                  c \<notin> room_clients (rms (readPump_deferred order c hb) p)"
    using readPump_deferred_left [of _ order hb c] rs by blast
  moreover have "consistent hb \<longrightarrow>
                   (\<forall>p. c \<notin> room_clients (rms (readPump_deferred order c hb) p))"
    using readPump_deferred_in_no_room [of hb c order] rs by blast
  moreover have "client_rooms (cls (readPump_deferred order c hb) c) = {}"
    using rs by (simp add: readPump_deferred_effect(3))
  ultimately show ?thesis by blast
qed

theorem C5_teardown_cascade_witness:
  "read_loop echo 0 [Decoded \<lparr>Event = ''ping'', Data = 7, Namespace = [], Room = []\<rparr>, ReadError]
     two_clients = Some two_clients \<and>
   ranges (client_rooms (cls two_clients 0)) (sorted_list_of_set (client_rooms (cls two_clients 0))) \<and>
   ns_rooms (nss two_clients (client_namespace (cls two_clients 0))) ''r1'' = Some 0 \<and>
   consistent two_clients \<and>
   (\<exists>h'. readPump echo 0
            [Decoded \<lparr>Event = ''ping'', Data = 7, Namespace = [], Room = []\<rparr>, ReadError]
            sorted_list_of_set two_clients = Some h' \<and>
         0 \<notin> ns_clients (nss h' 0) \<and> 0 \<notin> room_clients (rms h' 0) \<and>
         client_rooms (cls h' 0) = {})"
proof -
  let ?fs = "[Decoded \<lparr>Event = ''ping'', Data = 7, Namespace = [], Room = []\<rparr>, ReadError]"
  have l: "read_loop echo 0 ?fs two_clients = Some two_clients"
    by (simp add: Namespace_handleEvent_def two_clients_state)
  have r: "ranges (client_rooms (cls two_clients 0))
             (sorted_list_of_set (client_rooms (cls two_clients 0)))"
    by (simp add: ranges_def two_clients_state)
  have c: "consistent two_clients" by (rule reachable_consistent [OF reachable_two_clients])
  from C5_teardown_cascade [where order = sorted_list_of_set and call = echo and c = 0
      and h = two_clients and hb = two_clients, OF l r]
  obtain h' where
    h': "readPump echo 0 ?fs sorted_list_of_set two_clients = Some h'"
      "client_namespace (cls h' 0) = client_namespace (cls two_clients 0)"
      "0 \<notin> ns_clients (nss h' (client_namespace (cls h' 0)))"
      "consistent two_clients \<longrightarrow> (\<forall>p. 0 \<notin> room_clients (rms h' p))"
      "client_rooms (cls h' 0) = {}"
    by blast
  from h'(2,3) have "0 \<notin> ns_clients (nss h' 0)" by (simp add: two_clients_state)
  moreover from h'(4) c have "0 \<notin> room_clients (rms h' 0)" by blast
  ultimately have "\<exists>h'. readPump echo 0 ?fs sorted_list_of_set two_clients = Some h' \<and>
         0 \<notin> ns_clients (nss h' 0) \<and> 0 \<notin> room_clients (rms h' 0) \<and>
         client_rooms (cls h' 0) = {}"
    using h'(1,5) by blast
  then show ?thesis using l r c by (simp add: two_clients_state)
qed

section \<open>Round trip through the wire encoding\<close>






end
